theory Spec2Isabelle
  imports Main "HOL-Library.AList"
begin

section \<open>The host environment: timers and uncaught exceptions\<close>

text \<open>
  The utilities \<^verbatim>\<open>debounce\<close> and \<^verbatim>\<open>throttle\<close> of the library use three host
  primitives: \<^verbatim>\<open>Date.now()\<close>, \<^verbatim>\<open>setTimeout\<close> and \<^verbatim>\<open>clearTimeout\<close>. Clock values
  and delays are integers (milliseconds), and the timers run on the clock that
  \<^verbatim>\<open>Date.now()\<close> reads. A call of a JavaScript function either returns or throws. The
  callback given to \<^verbatim>\<open>debounce\<close> or \<^verbatim>\<open>throttle\<close> is any function of the arguments
  that returns or throws; it does not itself call the wrapped function or the host.
\<close>

datatype 'e completion = Normal | Throw 'e

text \<open>
  A pending timer: the handle \<^verbatim>\<open>setTimeout\<close> returned for it, the clock value at
  which it is due, and the variables its callback closes over.
\<close>

record 'c timer =
  handle :: nat
  due :: int
  task :: 'c

record 'c host =
  next_handle :: nat
  pending :: "'c timer list"

definition new_host :: "'c host" where
  "new_host = \<lparr>next_handle = 1, pending = []\<rparr>"

text \<open>
  The library is one for browsers. A browser keeps the delay of a timer as a signed
  integer of 32 bits: a delay outside \<open>-2147483648 .. 2147483647\<close> wraps around
  (\<^verbatim>\<open>setTimeout(f, 3000000000)\<close> has the delay \<open>-1294967296\<close>).
\<close>

definition to_int32 :: "int \<Rightarrow> int" where
  "to_int32 n = (n + 2147483648) mod 4294967296 - 2147483648"

text \<open>
  \<^verbatim>\<open>setTimeout(cb, delay)\<close> at clock value \<open>clk\<close>: the delay is taken as a signed
  integer of 32 bits, a negative one counts as 0, the handle is fresh.
\<close>

definition setTimeout :: "'c \<Rightarrow> int \<Rightarrow> int \<Rightarrow> 'c host \<Rightarrow> nat \<times> 'c host" where
  "setTimeout c delay clk h =
     (next_handle h,
      \<lparr>next_handle = Suc (next_handle h),
       pending = pending h @
         [\<lparr>handle = next_handle h, due = clk + max 0 (to_int32 delay), task = c\<rparr>]\<rparr>)"

text \<open>
  \<^verbatim>\<open>clearTimeout(id)\<close>: \<open>None\<close> is \<^verbatim>\<open>undefined\<close>; an unknown or already fired handle is
  ignored.
\<close>

definition clearTimeout :: "nat option \<Rightarrow> 'c host \<Rightarrow> 'c host" where
  "clearTimeout i h =
     (case i of
        None \<Rightarrow> h
      | Some n \<Rightarrow> h\<lparr>pending := filter (\<lambda>tm. handle tm \<noteq> n) (pending h)\<rparr>)"

text \<open>The timer the event loop runs next: the earliest due, the oldest among equals.\<close>

fun earliest :: "'c timer list \<Rightarrow> 'c timer option" where
  "earliest [] = None"
| "earliest (tm # tms) =
     (case earliest tms of
        None \<Rightarrow> Some tm
      | Some tm' \<Rightarrow> if due tm \<le> due tm' then Some tm else Some tm')"

text \<open>
  \<open>next_due (Some t) tms\<close> is the next timer to run while the clock has not passed
  \<open>t\<close>; \<open>next_due None tms\<close> waits for as long as a timer is pending.
\<close>

definition next_due :: "int option \<Rightarrow> 'c timer list \<Rightarrow> 'c timer option" where
  "next_due deadline tms =
     (case earliest tms of
        None \<Rightarrow> None
      | Some tm \<Rightarrow>
          (case deadline of
             None \<Rightarrow> Some tm
           | Some t \<Rightarrow> if due tm \<le> t then Some tm else None))"

definition dequeue :: "'c timer \<Rightarrow> 'c host \<Rightarrow> 'c host" where
  "dequeue tm h = h\<lparr>pending := filter (\<lambda>tm'. handle tm' \<noteq> handle tm) (pending h)\<rparr>"

text \<open>Where an exception that nobody caught ends up.\<close>

datatype 'e report = To_caller 'e | To_scheduler 'e

definition caller_report :: "'e completion \<Rightarrow> 'e report list" where
  "caller_report c = (case c of Normal \<Rightarrow> [] | Throw e \<Rightarrow> [To_caller e])"

definition scheduler_report :: "'e completion \<Rightarrow> 'e report list" where
  "scheduler_report c = (case c of Normal \<Rightarrow> [] | Throw e \<Rightarrow> [To_scheduler e])"


section \<open>throttle\<close>

text \<open>
  \<^verbatim>\<open>
  throttle(func, limit) {
      let lastFunc;
      let lastRan;
      return (...args) => {
          const now = Date.now();
          if (!lastRan) {
              func(...args);
              lastRan = now;
          } else {
              clearTimeout(lastFunc);
              lastFunc = setTimeout(() => {
                  if (now - lastRan >= limit) {
                      func(...args);
                      lastRan = now;
                  }
              }, limit - (now - lastRan));
          }
      };
  }
  \<close>
  The state of one throttled function: the two variables of the closure, the host's
  timers, and the record \<open>t_ran\<close> of the executions of \<^verbatim>\<open>func\<close> (clock value and
  arguments), which is what the properties below observe. \<open>None\<close> is \<^verbatim>\<open>undefined\<close>.
  The callback of a timer closes over \<^verbatim>\<open>now\<close> and \<^verbatim>\<open>args\<close>.
\<close>

record 'a throttle_state =
  lastFunc :: "nat option"
  lastRan :: "int option"
  t_host :: "(int \<times> 'a) host"
  t_ran :: "(int \<times> 'a) list"

definition throttle_init :: "'a throttle_state" where
  "throttle_init = \<lparr>lastFunc = None, lastRan = None, t_host = new_host, t_ran = []\<rparr>"

text \<open>
  \<^verbatim>\<open>func(...args); lastRan = now;\<close> at clock value \<open>clk\<close>: when \<^verbatim>\<open>func\<close> throws, the
  assignment is not reached.
\<close>

definition throttle_exec ::
  "('a \<Rightarrow> 'e completion) \<Rightarrow> int \<Rightarrow> int \<Rightarrow> 'a \<Rightarrow> 'a throttle_state
     \<Rightarrow> 'e completion \<times> 'a throttle_state" where
  "throttle_exec func clk now args s =
     (case func args of
        Throw e \<Rightarrow> (Throw e, s\<lparr>t_ran := t_ran s @ [(clk, args)]\<rparr>)
      | Normal \<Rightarrow> (Normal, s\<lparr>t_ran := t_ran s @ [(clk, args)], lastRan := Some now\<rparr>))"

text \<open>
  The function \<^verbatim>\<open>throttle\<close> returns, called with \<open>args\<close> when \<^verbatim>\<open>Date.now()\<close> is
  \<open>now\<close>. \<^verbatim>\<open>!lastRan\<close> holds for \<^verbatim>\<open>undefined\<close> and for 0.
\<close>

definition throttle_wrapped ::
  "('a \<Rightarrow> 'e completion) \<Rightarrow> int \<Rightarrow> int \<Rightarrow> 'a \<Rightarrow> 'a throttle_state
     \<Rightarrow> 'e completion \<times> 'a throttle_state" where
  "throttle_wrapped func limit now args s =
     (case lastRan s of
        None \<Rightarrow> throttle_exec func now now args s
      | Some r \<Rightarrow>
          if r = 0 then throttle_exec func now now args s
          else
            (case setTimeout (now, args) (limit - (now - r)) now
                    (clearTimeout (lastFunc s) (t_host s)) of
               (i, h) \<Rightarrow> (Normal, s\<lparr>lastFunc := Some i, t_host := h\<rparr>)))"

text \<open>
  The callback of the timer, run at clock value \<open>clk\<close>. With \<^verbatim>\<open>lastRan\<close> undefined
  the difference is NaN and the comparison is false.
\<close>

definition throttle_timer ::
  "('a \<Rightarrow> 'e completion) \<Rightarrow> int \<Rightarrow> int \<times> 'a \<Rightarrow> int \<Rightarrow> 'a throttle_state
     \<Rightarrow> 'e completion \<times> 'a throttle_state" where
  "throttle_timer func limit c clk s =
     (case c of
        (now, args) \<Rightarrow>
          (case lastRan s of
             None \<Rightarrow> (Normal, s)
           | Some r \<Rightarrow>
               if now - r \<ge> limit then throttle_exec func clk now args s
               else (Normal, s)))"

text \<open>
  The event loop around one throttled function. A call is a task of its own: what it
  throws goes to its caller. A due timer is taken off the host's list and its
  callback run at the clock value at which it is due (the host is not late): what it
  throws goes to the scheduler.
\<close>

definition throttle_call ::
  "('a \<Rightarrow> 'e completion) \<Rightarrow> int \<Rightarrow> int \<Rightarrow> 'a \<Rightarrow> 'a throttle_state \<times> 'e report list
     \<Rightarrow> 'a throttle_state \<times> 'e report list" where
  "throttle_call func limit now args w =
     (case throttle_wrapped func limit now args (fst w) of
        (c, s) \<Rightarrow> (s, snd w @ caller_report c))"

definition throttle_fire ::
  "('a \<Rightarrow> 'e completion) \<Rightarrow> int \<Rightarrow> (int \<times> 'a) timer \<Rightarrow> 'a throttle_state \<times> 'e report list
     \<Rightarrow> 'a throttle_state \<times> 'e report list" where
  "throttle_fire func limit tm w =
     (case throttle_timer func limit (task tm) (due tm)
             ((fst w)\<lparr>t_host := dequeue tm (t_host (fst w))\<rparr>) of
        (c, s) \<Rightarrow> (s, snd w @ scheduler_report c))"

lemma earliest_in: "earliest tms = Some tm \<Longrightarrow> tm \<in> set tms"
  by (induction tms arbitrary: tm) (auto split: option.splits if_splits)

lemma next_due_in: "next_due d tms = Some tm \<Longrightarrow> tm \<in> set tms"
  by (auto simp: next_due_def earliest_in split: option.splits if_splits)

lemma dequeue_shorter:
  "tm \<in> set (pending h) \<Longrightarrow> length (pending (dequeue tm h)) < length (pending h)"
  unfolding dequeue_def
  by (simp add: length_filter_less)

lemma throttle_exec_host: "t_host (snd (throttle_exec func clk now args s)) = t_host s"
  by (simp add: throttle_exec_def split: completion.splits)

lemma throttle_timer_host: "t_host (snd (throttle_timer func limit c clk s)) = t_host s"
  by (simp add: throttle_timer_def throttle_exec_host split: prod.splits option.splits)

lemma throttle_fire_host:
  "t_host (fst (throttle_fire func limit tm w)) = dequeue tm (t_host (fst w))"
proof -
  obtain c s where
    cs: "throttle_timer func limit (task tm) (due tm)
           ((fst w)\<lparr>t_host := dequeue tm (t_host (fst w))\<rparr>) = (c, s)"
    by (cases "throttle_timer func limit (task tm) (due tm)
           ((fst w)\<lparr>t_host := dequeue tm (t_host (fst w))\<rparr>)")
  have "t_host s = dequeue tm (t_host (fst w))"
    using throttle_timer_host [of func limit "task tm" "due tm"
        "(fst w)\<lparr>t_host := dequeue tm (t_host (fst w))\<rparr>"]
    by (simp add: cs)
  then show ?thesis
    by (simp add: throttle_fire_def cs)
qed

text \<open>Run the timers that are due up to the deadline, in the order they are due.\<close>

function throttle_elapse ::
  "('a \<Rightarrow> 'e completion) \<Rightarrow> int \<Rightarrow> int option \<Rightarrow> 'a throttle_state \<times> 'e report list
     \<Rightarrow> 'a throttle_state \<times> 'e report list" where
  "throttle_elapse func limit deadline w =
     (case next_due deadline (pending (t_host (fst w))) of
        None \<Rightarrow> w
      | Some tm \<Rightarrow> throttle_elapse func limit deadline (throttle_fire func limit tm w))"
  by pat_completeness auto
termination
proof (relation "measure (\<lambda>(func, limit, deadline, w). length (pending (t_host (fst w))))")
  show "wf (measure (\<lambda>(func, limit, deadline, w). length (pending (t_host (fst w)))))"
    by simp
next
  fix func :: "'a \<Rightarrow> 'e completion" and limit :: int and deadline :: "int option"
    and w :: "'a throttle_state \<times> 'e report list" and tm :: "(int \<times> 'a) timer"
  assume "next_due deadline (pending (t_host (fst w))) = Some tm"
  then have "tm \<in> set (pending (t_host (fst w)))"
    by (rule next_due_in)
  then show "((func, limit, deadline, throttle_fire func limit tm w), func, limit, deadline, w)
      \<in> measure (\<lambda>(func, limit, deadline, w). length (pending (t_host (fst w))))"
    by (simp add: throttle_fire_host dequeue_shorter)
qed

declare throttle_elapse.simps [simp del]

text \<open>
  A run in which every call is a task of its own: calls given by clock value and
  arguments, in the order they are made. Before a call at clock value \<open>t\<close> the
  timers due up to \<open>t\<close> have run (a timer due at \<open>t\<close> itself runs before the
  call); after the last call the pending timers run.
\<close>

fun throttle_run ::
  "('a \<Rightarrow> 'e completion) \<Rightarrow> int \<Rightarrow> (int \<times> 'a) list \<Rightarrow> 'a throttle_state \<times> 'e report list
     \<Rightarrow> 'a throttle_state \<times> 'e report list" where
  "throttle_run func limit [] w = throttle_elapse func limit None w"
| "throttle_run func limit ((t, args) # cs) w =
     throttle_run func limit cs
       (throttle_call func limit t args (throttle_elapse func limit (Some t) w))"

definition throttle_executions ::
  "('a \<Rightarrow> 'e completion) \<Rightarrow> int \<Rightarrow> (int \<times> 'a) list \<Rightarrow> (int \<times> 'a) list" where
  "throttle_executions func limit cs = t_ran (fst (throttle_run func limit cs (throttle_init, [])))"

text \<open>
  A run in general: a list of tasks, each the calls that one task makes, one after the
  other with no timer run in between. Before a task the timers due up to the clock
  value of its first call have run; after the last task the pending timers run.
\<close>

fun throttle_calls ::
  "('a \<Rightarrow> 'e completion) \<Rightarrow> int \<Rightarrow> (int \<times> 'a) list \<Rightarrow> 'a throttle_state \<times> 'e report list
     \<Rightarrow> 'a throttle_state \<times> 'e report list" where
  "throttle_calls func limit [] w = w"
| "throttle_calls func limit ((t, args) # cs) w =
     throttle_calls func limit cs (throttle_call func limit t args w)"

fun throttle_tasks ::
  "('a \<Rightarrow> 'e completion) \<Rightarrow> int \<Rightarrow> (int \<times> 'a) list list
     \<Rightarrow> 'a throttle_state \<times> 'e report list \<Rightarrow> 'a throttle_state \<times> 'e report list" where
  "throttle_tasks func limit [] w = throttle_elapse func limit None w"
| "throttle_tasks func limit ([] # tasks) w = throttle_tasks func limit tasks w"
| "throttle_tasks func limit (((t, args) # cs) # tasks) w =
     throttle_tasks func limit tasks
       (throttle_calls func limit ((t, args) # cs) (throttle_elapse func limit (Some t) w))"

text \<open>A callback that returns.\<close>

definition returns :: "'a \<Rightarrow> 'e completion" where
  "returns args = Normal"

section \<open>debounce\<close>

text \<open>
  \<^verbatim>\<open>
  debounce(func, delay) {
      let timeout;
      return (...args) => {
          clearTimeout(timeout);
          timeout = setTimeout(() => func(...args), delay);
      };
  }
  \<close>
  The state of one debounced function: the variable of the closure, the host's
  timers, and the record \<open>d_ran\<close> of the executions of \<^verbatim>\<open>func\<close>. The callback of a
  timer closes over \<^verbatim>\<open>args\<close>.
\<close>

record 'a debounce_state =
  timeout :: "nat option"
  d_host :: "'a host"
  d_ran :: "(int \<times> 'a) list"

definition debounce_init :: "'a debounce_state" where
  "debounce_init = \<lparr>timeout = None, d_host = new_host, d_ran = []\<rparr>"

definition debounce_wrapped ::
  "('a \<Rightarrow> 'e completion) \<Rightarrow> int \<Rightarrow> int \<Rightarrow> 'a \<Rightarrow> 'a debounce_state
     \<Rightarrow> 'e completion \<times> 'a debounce_state" where
  "debounce_wrapped func delay now args s =
     (case setTimeout args delay now (clearTimeout (timeout s) (d_host s)) of
        (i, h) \<Rightarrow> (Normal, s\<lparr>timeout := Some i, d_host := h\<rparr>))"

definition debounce_timer ::
  "('a \<Rightarrow> 'e completion) \<Rightarrow> 'a \<Rightarrow> int \<Rightarrow> 'a debounce_state
     \<Rightarrow> 'e completion \<times> 'a debounce_state" where
  "debounce_timer func args clk s = (func args, s\<lparr>d_ran := d_ran s @ [(clk, args)]\<rparr>)"

definition debounce_call ::
  "('a \<Rightarrow> 'e completion) \<Rightarrow> int \<Rightarrow> int \<Rightarrow> 'a \<Rightarrow> 'a debounce_state \<times> 'e report list
     \<Rightarrow> 'a debounce_state \<times> 'e report list" where
  "debounce_call func delay now args w =
     (case debounce_wrapped func delay now args (fst w) of
        (c, s) \<Rightarrow> (s, snd w @ caller_report c))"

definition debounce_fire ::
  "('a \<Rightarrow> 'e completion) \<Rightarrow> 'a timer \<Rightarrow> 'a debounce_state \<times> 'e report list
     \<Rightarrow> 'a debounce_state \<times> 'e report list" where
  "debounce_fire func tm w =
     (case debounce_timer func (task tm) (due tm)
             ((fst w)\<lparr>d_host := dequeue tm (d_host (fst w))\<rparr>) of
        (c, s) \<Rightarrow> (s, snd w @ scheduler_report c))"

lemma debounce_fire_host:
  "d_host (fst (debounce_fire func tm w)) = dequeue tm (d_host (fst w))"
  by (simp add: debounce_fire_def debounce_timer_def)

function debounce_elapse ::
  "('a \<Rightarrow> 'e completion) \<Rightarrow> int option \<Rightarrow> 'a debounce_state \<times> 'e report list
     \<Rightarrow> 'a debounce_state \<times> 'e report list" where
  "debounce_elapse func deadline w =
     (case next_due deadline (pending (d_host (fst w))) of
        None \<Rightarrow> w
      | Some tm \<Rightarrow> debounce_elapse func deadline (debounce_fire func tm w))"
  by pat_completeness auto
termination
proof (relation "measure (\<lambda>(func, deadline, w). length (pending (d_host (fst w))))")
  show "wf (measure (\<lambda>(func, deadline, w). length (pending (d_host (fst w)))))"
    by simp
next
  fix func :: "'a \<Rightarrow> 'e completion" and deadline :: "int option"
    and w :: "'a debounce_state \<times> 'e report list" and tm :: "'a timer"
  assume "next_due deadline (pending (d_host (fst w))) = Some tm"
  then have "tm \<in> set (pending (d_host (fst w)))"
    by (rule next_due_in)
  then show "((func, deadline, debounce_fire func tm w), func, deadline, w)
      \<in> measure (\<lambda>(func, deadline, w). length (pending (d_host (fst w))))"
    by (simp add: debounce_fire_host dequeue_shorter)
qed

declare debounce_elapse.simps [simp del]

text \<open>
  The runs of a debounced function, as for a throttled one: \<open>debounce_run\<close> with
  every call a task of its own, \<open>debounce_tasks\<close> with the calls grouped in tasks.
\<close>

fun debounce_run ::
  "('a \<Rightarrow> 'e completion) \<Rightarrow> int \<Rightarrow> (int \<times> 'a) list \<Rightarrow> 'a debounce_state \<times> 'e report list
     \<Rightarrow> 'a debounce_state \<times> 'e report list" where
  "debounce_run func delay [] w = debounce_elapse func None w"
| "debounce_run func delay ((t, args) # cs) w =
     debounce_run func delay cs
       (debounce_call func delay t args (debounce_elapse func (Some t) w))"

definition debounce_executions ::
  "('a \<Rightarrow> 'e completion) \<Rightarrow> int \<Rightarrow> (int \<times> 'a) list \<Rightarrow> (int \<times> 'a) list" where
  "debounce_executions func delay cs = d_ran (fst (debounce_run func delay cs (debounce_init, [])))"

fun debounce_calls ::
  "('a \<Rightarrow> 'e completion) \<Rightarrow> int \<Rightarrow> (int \<times> 'a) list \<Rightarrow> 'a debounce_state \<times> 'e report list
     \<Rightarrow> 'a debounce_state \<times> 'e report list" where
  "debounce_calls func delay [] w = w"
| "debounce_calls func delay ((t, args) # cs) w =
     debounce_calls func delay cs (debounce_call func delay t args w)"

fun debounce_tasks ::
  "('a \<Rightarrow> 'e completion) \<Rightarrow> int \<Rightarrow> (int \<times> 'a) list list
     \<Rightarrow> 'a debounce_state \<times> 'e report list \<Rightarrow> 'a debounce_state \<times> 'e report list" where
  "debounce_tasks func delay [] w = debounce_elapse func None w"
| "debounce_tasks func delay ([] # tasks) w = debounce_tasks func delay tasks w"
| "debounce_tasks func delay (((t, args) # cs) # tasks) w =
     debounce_tasks func delay tasks
       (debounce_calls func delay ((t, args) # cs) (debounce_elapse func (Some t) w))"

text \<open>Calls of which each comes less than \<open>delay\<close> after the one before.\<close>

fun close_calls :: "int \<Rightarrow> (int \<times> 'a) list \<Rightarrow> bool" where
  "close_calls delay (c # c' # cs) = (fst c' - fst c < delay \<and> close_calls delay (c' # cs))"
| "close_calls delay cs = True"

text \<open>
  The states an instance can be in: any calls at any clock values, and any pending
  timer run at any clock value, in any order.
\<close>

inductive debounce_reach :: "('a \<Rightarrow> 'e completion) \<Rightarrow> int \<Rightarrow> 'a debounce_state \<Rightarrow> bool"
  for func :: "'a \<Rightarrow> 'e completion" and delay :: int where
  d_init: "debounce_reach func delay debounce_init"
| d_call: "debounce_reach func delay s \<Longrightarrow>
     debounce_reach func delay (snd (debounce_wrapped func delay now args s))"
| d_fire: "debounce_reach func delay s \<Longrightarrow> tm \<in> set (pending (d_host s)) \<Longrightarrow>
     debounce_reach func delay
       (snd (debounce_timer func (task tm) clk (s\<lparr>d_host := dequeue tm (d_host s)\<rparr>)))"

inductive throttle_reach :: "('a \<Rightarrow> 'e completion) \<Rightarrow> int \<Rightarrow> 'a throttle_state \<Rightarrow> bool"
  for func :: "'a \<Rightarrow> 'e completion" and limit :: int where
  t_init: "throttle_reach func limit throttle_init"
| t_call: "throttle_reach func limit s \<Longrightarrow>
     throttle_reach func limit (snd (throttle_wrapped func limit now args s))"
| t_fire: "throttle_reach func limit s \<Longrightarrow> tm \<in> set (pending (t_host s)) \<Longrightarrow>
     throttle_reach func limit
       (snd (throttle_timer func limit (task tm) clk (s\<lparr>t_host := dequeue tm (t_host s)\<rparr>)))"

text \<open>
  The timers pending for an instance are those whose handle its variable holds, and
  the host never gives out a handle twice.
\<close>

definition owned :: "nat option \<Rightarrow> 'c host \<Rightarrow> bool" where
  "owned i h =
     (length (pending h) \<le> 1 \<and>
      (\<forall>tm \<in> set (pending h). i = Some (handle tm) \<and> handle tm < next_handle h) \<and>
      (\<forall>n. i = Some n \<longrightarrow> n < next_handle h))"

section \<open>Invariants of the runs\<close>

text \<open>
  After an execution at clock value \<open>t0\<close> and while only calls before \<open>t0 + limit\<close>
  arrive, a throttled function has executed once, and every pending timer closes over
  a \<^verbatim>\<open>now\<close> inside the interval.
\<close>

definition cooling :: "int \<Rightarrow> int \<Rightarrow> 'a \<Rightarrow> 'a throttle_state \<Rightarrow> bool" where
  "cooling t0 limit a0 s =
     (lastRan s = Some t0 \<and> t_ran s = [(t0, a0)] \<and>
      (\<forall>tm \<in> set (pending (t_host s)). fst (task tm) - t0 < limit))"

text \<open>
  Between the calls of a burst a debounced function has not executed and holds
  exactly one timer, for the arguments of the latest call.
\<close>

definition armed :: "int \<Rightarrow> int \<Rightarrow> 'a \<Rightarrow> 'a debounce_state \<Rightarrow> bool" where
  "armed delay t a s =
     (d_ran s = [] \<and>
      (\<exists>tm. pending (d_host s) = [tm] \<and> timeout s = Some (handle tm) \<and>
            due tm = t + delay \<and> task tm = a))"


section \<open>Objects: isEmpty and mergeObjects\<close>

text \<open>
  \<^verbatim>\<open>isEmpty\<close> and \<^verbatim>\<open>mergeObjects\<close> work on JavaScript values. An object is a
  reference into a heap; the heap holds, for each object, whether it is an array and
  its own enumerable properties in the order the language lists them (for an array
  the indices; \<^verbatim>\<open>length\<close> is not enumerable). Objects are plain: their prototype is
  \<^verbatim>\<open>Object.prototype\<close> or \<^verbatim>\<open>Array.prototype\<close>, which have no enumerable property, they
  have no accessors and are not frozen, and keys naming an inherited or non-enumerable
  member (such as \<^verbatim>\<open>toString\<close>, or \<^verbatim>\<open>length\<close> of an array) are left out. Numbers
  are integers.
\<close>

datatype js_error = TypeError | RangeError

datatype val = JUndefined | JNull | JBool bool | JNum int | JStr string | JRef nat

datatype kind = Plain | Array

record jsobj =
  kind :: kind
  props :: "(string \<times> val) list"

type_synonym heap = "jsobj list"

text \<open>The key of index \<open>n\<close> of a string or array.\<close>

function decimal :: "nat \<Rightarrow> string" where
  "decimal n =
     (if n < 10 then [''0123456789'' ! n]
      else decimal (n div 10) @ [''0123456789'' ! (n mod 10)])"
  by pat_completeness auto
termination
  by (relation "measure id") auto

declare decimal.simps [simp del]

text \<open>
  The order of the own properties of an object: first the keys that are array indices
  (the decimal numerals, without leading zeros, of the integers up to
  \<open>4294967294\<close>) by ascending value, then the other keys in the order they were
  added. \<open>array_index k\<close> is the value of such a key.
\<close>

fun digits_value :: "string \<Rightarrow> int \<Rightarrow> int option" where
  "digits_value [] n = Some n"
| "digits_value (c # cs) n =
     (case map_of (zip ''0123456789'' [0, 1, 2, 3, 4, 5, 6, 7, 8, 9]) c of
        None \<Rightarrow> None
      | Some d \<Rightarrow> digits_value cs (10 * n + d))"

definition array_index :: "string \<Rightarrow> int option" where
  "array_index k =
     (case k of
        [] \<Rightarrow> None
      | c # cs \<Rightarrow>
          if c = CHR ''0'' \<and> cs \<noteq> [] then None
          else
            (case digits_value k 0 of
               None \<Rightarrow> None
             | Some n \<Rightarrow> if n \<le> 4294967294 then Some n else None))"

definition key_before :: "string \<Rightarrow> string \<Rightarrow> bool" where
  "key_before k k' =
     (case array_index k of
        None \<Rightarrow> False
      | Some n \<Rightarrow> (case array_index k' of None \<Rightarrow> True | Some n' \<Rightarrow> n < n'))"

fun insert_key :: "string \<Rightarrow> 'v \<Rightarrow> (string \<times> 'v) list \<Rightarrow> (string \<times> 'v) list" where
  "insert_key k x [] = [(k, x)]"
| "insert_key k x (p # ps) =
     (if key_before k (fst p) then (k, x) # p # ps else p # insert_key k x ps)"

text \<open>
  \<open>put k x ps\<close> is the assignment \<^verbatim>\<open>o[k] = x\<close> on the properties \<open>ps\<close> of \<open>o\<close>: a
  key the object has keeps its place, a new key takes the place the order gives it.
\<close>

definition put :: "string \<Rightarrow> 'v \<Rightarrow> (string \<times> 'v) list \<Rightarrow> (string \<times> 'v) list" where
  "put k x ps = (if k \<in> fst ` set ps then AList.update k x ps else insert_key k x ps)"

text \<open>
  The own enumerable properties of a value: those of the object, the characters of a
  string by index, none for the other primitives. A reference outside the heap has
  none.
\<close>

definition own_props :: "heap \<Rightarrow> val \<Rightarrow> (string \<times> val) list" where
  "own_props h v =
     (case v of
        JRef a \<Rightarrow> if a < length h then props (h ! a) else []
      | JStr s \<Rightarrow> map (\<lambda>i. (decimal i, JStr [s ! i])) [0..<length s]
      | _ \<Rightarrow> [])"

text \<open>
  \<^verbatim>\<open>
  isEmpty(obj) {
      return Object.keys(obj).length === 0;
  }
  \<close>
  \<^verbatim>\<open>Object.keys\<close> throws a TypeError for \<^verbatim>\<open>undefined\<close> and \<^verbatim>\<open>null\<close>.
\<close>

definition Object_keys :: "heap \<Rightarrow> val \<Rightarrow> js_error + string list" where
  "Object_keys h v =
     (case v of
        JUndefined \<Rightarrow> Inl TypeError
      | JNull \<Rightarrow> Inl TypeError
      | _ \<Rightarrow> Inr (map fst (own_props h v)))"

definition isEmpty :: "heap \<Rightarrow> val \<Rightarrow> js_error + bool" where
  "isEmpty h obj =
     (case Object_keys h obj of
        Inl e \<Rightarrow> Inl e
      | Inr ks \<Rightarrow> Inr (length ks = 0))"

text \<open>
  \<^verbatim>\<open>
  mergeObjects(target, source) {
      for (let key in source) {
          if (source[key] instanceof Object && key in target) {
              Object.assign(source[key], this.mergeObjects(target[key], source[key]));
          }
      }
      return { ...target, ...source };
  }
  \<close>
  \<open>get h v key\<close> is \<^verbatim>\<open>v[key]\<close>, \<open>has_property h key v\<close> is \<^verbatim>\<open>key in v\<close> (a TypeError
  when \<open>v\<close> is not an object), \<open>Object_assign v m h\<close> writes every property of \<open>m\<close>
  into the object \<open>v\<close> in place, \<open>spread target source h\<close> is
  \<^verbatim>\<open>{ ...target, ...source }\<close>, a new object.
\<close>

definition get :: "heap \<Rightarrow> val \<Rightarrow> string \<Rightarrow> js_error + val" where
  "get h v key =
     (case v of
        JUndefined \<Rightarrow> Inl TypeError
      | JNull \<Rightarrow> Inl TypeError
      | _ \<Rightarrow> Inr (case map_of (own_props h v) key of None \<Rightarrow> JUndefined | Some x \<Rightarrow> x))"

definition instanceof_Object :: "val \<Rightarrow> bool" where
  "instanceof_Object v = (case v of JRef a \<Rightarrow> True | _ \<Rightarrow> False)"

definition has_property :: "heap \<Rightarrow> string \<Rightarrow> val \<Rightarrow> js_error + bool" where
  "has_property h key v =
     (case v of
        JRef a \<Rightarrow> Inr (key \<in> set (map fst (own_props h v)))
      | _ \<Rightarrow> Inl TypeError)"

definition assign_props :: "(string \<times> val) list \<Rightarrow> (string \<times> val) list \<Rightarrow> (string \<times> val) list" where
  "assign_props ps qs = foldl (\<lambda>ps (k, x). put k x ps) ps qs"

definition Object_assign :: "val \<Rightarrow> val \<Rightarrow> heap \<Rightarrow> heap" where
  "Object_assign v m h =
     (case v of
        JRef a \<Rightarrow>
          if a < length h then h[a := (h ! a)\<lparr>props := assign_props (props (h ! a)) (own_props h m)\<rparr>]
          else h
      | _ \<Rightarrow> h)"

definition spread :: "val \<Rightarrow> val \<Rightarrow> heap \<Rightarrow> val \<times> heap" where
  "spread target source h =
     (JRef (length h),
      h @ [\<lparr>kind = Plain,
            props = assign_props (assign_props [] (own_props h target)) (own_props h source)\<rparr>])"

text \<open>
  The loop over the keys the source has when the loop starts. An exception leaves the
  loop; the heap keeps what was written before.
\<close>

fun for_in ::
  "(string \<Rightarrow> heap \<Rightarrow> js_error \<times> heap + heap) \<Rightarrow> string list \<Rightarrow> heap \<Rightarrow> js_error \<times> heap + heap" where
  "for_in body [] h = Inr h"
| "for_in body (key # keys) h =
     (case body key h of
        Inl eh \<Rightarrow> Inl eh
      | Inr h' \<Rightarrow> for_in body keys h')"

text \<open>The body of the loop; \<open>rec\<close> is the recursive call.\<close>

definition merge_key ::
  "(val \<Rightarrow> val \<Rightarrow> heap \<Rightarrow> js_error \<times> heap + val \<times> heap) \<Rightarrow> val \<Rightarrow> val \<Rightarrow> string \<Rightarrow> heap
     \<Rightarrow> js_error \<times> heap + heap" where
  "merge_key rec target source key h =
     (case get h source key of
        Inl e \<Rightarrow> Inl (e, h)
      | Inr v \<Rightarrow>
          if instanceof_Object v then
            (case has_property h key target of
               Inl e \<Rightarrow> Inl (e, h)
             | Inr False \<Rightarrow> Inr h
             | Inr True \<Rightarrow>
                 (case get h target key of
                    Inl e \<Rightarrow> Inl (e, h)
                  | Inr tv \<Rightarrow>
                      (case rec tv v h of
                         Inl eh \<Rightarrow> Inl eh
                       | Inr (m, h') \<Rightarrow> Inr (Object_assign v m h'))))
          else Inr h)"

text \<open>
  The recursion follows the nesting of the objects and need not end on a cyclic heap:
  the first argument is the number of stack frames the engine has left, and the call
  that finds none throws a RangeError, as the engine does. A call that returns with
  some number of frames returns the same with any greater number (lemma
  \<open>mergeObjects_deeper\<close> below), so what is proved of a call that returns holds for
  every engine whose stack is deep enough.
\<close>

primrec mergeObjects :: "nat \<Rightarrow> val \<Rightarrow> val \<Rightarrow> heap \<Rightarrow> js_error \<times> heap + val \<times> heap" where
  "mergeObjects 0 target source h = Inl (RangeError, h)"
| "mergeObjects (Suc depth) target source h =
     (case for_in (merge_key (mergeObjects depth) target source) (map fst (own_props h source)) h of
        Inl eh \<Rightarrow> Inl eh
      | Inr h' \<Rightarrow> Inr (spread target source h'))"












text \<open>
  \<^verbatim>\<open>mergeObjects({a: {b: {x: 1}}}, {a: {b: {y: 2}}})\<close>, two levels of nesting: the
  target at address 0, the source at 3.
\<close>

definition two_level_heap :: heap where
  "two_level_heap = [\<lparr>kind = Plain, props = [(''a'', JRef 1)]\<rparr>,
                     \<lparr>kind = Plain, props = [(''b'', JRef 2)]\<rparr>,
                     \<lparr>kind = Plain, props = [(''x'', JNum 1)]\<rparr>,
                     \<lparr>kind = Plain, props = [(''a'', JRef 4)]\<rparr>,
                     \<lparr>kind = Plain, props = [(''b'', JRef 5)]\<rparr>,
                     \<lparr>kind = Plain, props = [(''y'', JNum 2)]\<rparr>]"


section \<open>Properties of throttle\<close>

lemmas throttle_unfold =
  throttle_executions_def throttle_elapse.simps throttle_init_def new_host_def next_due_def
  throttle_call_def throttle_wrapped_def throttle_exec_def returns_def setTimeout_def
  clearTimeout_def throttle_fire_def dequeue_def throttle_timer_def scheduler_report_def
  caller_report_def to_int32_def

text \<open>
  Claim C1. \<^verbatim>\<open>throttle(fn, 100)\<close> with calls at t = 0, 30, 60, 90, 120: the claim
  expects two executions, at t = 0 with the arguments of the first call and at
  t = 100 with the arguments of the call at t = 90. The code does neither of the two
  things the claim says about the second execution. When the clock reads 0 at the
  first call, \<^verbatim>\<open>lastRan\<close> is 0, which counts as not set, and the call at 30 executes
  at once; the later timers close over a \<^verbatim>\<open>now\<close> less than 100 after 30 and do
  nothing. When the clock reads \<open>T \<noteq> 0\<close> at the first call, every timer set inside
  the interval closes over a \<^verbatim>\<open>now\<close> less than 100 after \<open>T\<close>, so its test fails
  when it runs at \<open>T + 100\<close>; the call at \<open>T + 120\<close> executes, at \<open>T + 120\<close>.
\<close>

theorem throttle_scenario:
  "throttle_executions (returns :: 'a \<Rightarrow> 'e completion) 100
       [(0, a0), (30, a1), (60, a2), (90, a3), (120, a4)]
     = [(0, a0), (30, a1)] \<and>
   (T \<noteq> 0 \<longrightarrow>
    throttle_executions (returns :: 'a \<Rightarrow> 'e completion) 100
       [(T, a0), (T + 30, a1), (T + 60, a2), (T + 90, a3), (T + 120, a4)]
     = [(T, a0), (T + 120, a4)])"
  by (simp add: throttle_unfold)

theorem throttle_scenario_witness:
  "(1000 :: int) \<noteq> 0 \<and>
   throttle_executions (returns :: nat \<Rightarrow> unit completion) 100
       [(1000, 0), (1030, 1), (1060, 2), (1090, 3), (1120, 4)]
     = [(1000, 0), (1120, 4)]"
  using throttle_scenario [where ?'a = nat and ?'e = unit and T = 1000 and
      ?a0.0 = 0 and ?a1.0 = 1 and ?a2.0 = 2 and ?a3.0 = 3 and ?a4.0 = 4]
  by simp

text \<open>
  Claim C2. The claim expects the last call of a burst to be executed once the timers
  have run. In the code a second call that comes before the interval has elapsed is
  lost: its timer closes over a \<^verbatim>\<open>now\<close> less than \<open>limit\<close> after the execution, and
  the test \<^verbatim>\<open>now - lastRan >= limit\<close> fails when the timer runs.
\<close>

theorem throttle_drops_final:
  "t0 \<noteq> 0 \<Longrightarrow> t1 < t0 + limit \<Longrightarrow>
   throttle_executions (returns :: 'a \<Rightarrow> 'e completion) limit [(t0, a), (t1, b)] = [(t0, a)]"
  by (simp add: throttle_unfold)

theorem throttle_drops_final_witness:
  "(1000 :: int) \<noteq> 0 \<and> (1030 :: int) < 1000 + 100 \<and>
   throttle_executions (returns :: string \<Rightarrow> unit completion) 100
       [(1000, ''a''), (1030, ''b'')] = [(1000, ''a'')]"
  using throttle_drops_final [where ?'a = string and ?'e = unit and ?t0.0 = 1000 and
      ?t1.0 = 1030 and limit = 100 and a = "''a''" and b = "''b''"]
  by simp

lemma next_due_None:
  "\<forall>tm \<in> set tms. t < due tm \<Longrightarrow> next_due (Some t) tms = None"
proof (cases "earliest tms")
  case None
  then show ?thesis by (simp add: next_due_def)
next
  case (Some tm)
  assume late: "\<forall>tm \<in> set tms. t < due tm"
  from Some have "tm \<in> set tms" by (rule earliest_in)
  with late have "t < due tm" by simp
  with Some show ?thesis by (simp add: next_due_def)
qed

lemma cooling_call:
  assumes "cooling t0 limit a0 (fst w)" and "t0 \<noteq> 0" and "t < t0 + limit"
  shows "cooling t0 limit a0 (fst (throttle_call func limit t a w))"
proof -
  have "pending (clearTimeout (lastFunc (fst w)) (t_host (fst w))) = [] \<or>
        set (pending (clearTimeout (lastFunc (fst w)) (t_host (fst w)))) \<subseteq> set (pending (t_host (fst w)))"
    by (cases "lastFunc (fst w)") (auto simp: clearTimeout_def)
  then show ?thesis
    using assms
    by (auto simp: cooling_def throttle_call_def throttle_wrapped_def setTimeout_def
        split: prod.splits)
qed

lemma cooling_fire:
  assumes "cooling t0 limit a0 (fst w)" and "tm \<in> set (pending (t_host (fst w)))"
  shows "cooling t0 limit a0 (fst (throttle_fire func limit tm w))"
  using assms
  by (cases "task tm")
     (auto simp: cooling_def throttle_fire_def throttle_timer_def dequeue_def split: prod.splits)

lemma cooling_elapse:
  "cooling t0 limit a0 (fst w) \<Longrightarrow> cooling t0 limit a0 (fst (throttle_elapse func limit d w))"
proof (induction func limit d w rule: throttle_elapse.induct)
  case (1 func limit deadline w)
  show ?case
  proof (cases "next_due deadline (pending (t_host (fst w)))")
    case None
    with "1.prems" show ?thesis by (simp add: throttle_elapse.simps)
  next
    case (Some tm)
    then have "tm \<in> set (pending (t_host (fst w)))" by (rule next_due_in)
    with "1.prems" have "cooling t0 limit a0 (fst (throttle_fire func limit tm w))"
      by (rule cooling_fire)
    with "1.IH" [OF Some] Some show ?thesis
      by (simp add: throttle_elapse.simps [of func limit deadline w])
  qed
qed

lemma cooling_run:
  "cooling t0 limit a0 (fst w) \<Longrightarrow> t0 \<noteq> 0 \<Longrightarrow> list_all (\<lambda>c. fst c < t0 + limit) cs \<Longrightarrow>
   cooling t0 limit a0 (fst (throttle_run func limit cs w))"
proof (induction cs arbitrary: w)
  case Nil
  then show ?case by (simp add: cooling_elapse)
next
  case (Cons c cs)
  obtain t a where c: "c = (t, a)" by (cases c)
  from Cons.prems c have t: "t < t0 + limit" by simp
  have "cooling t0 limit a0 (fst (throttle_elapse func limit (Some t) w))"
    using Cons.prems(1) by (rule cooling_elapse)
  then have "cooling t0 limit a0
               (fst (throttle_call func limit t a (throttle_elapse func limit (Some t) w)))"
    using Cons.prems(2) t by (rule cooling_call)
  then show ?case
    using Cons.IH [of "throttle_call func limit t a (throttle_elapse func limit (Some t) w)"]
      Cons.prems c by simp
qed

lemma cooling_first:
  "cooling t0 limit a0
     (fst (throttle_call returns limit t0 a0 (throttle_elapse returns limit (Some t0) (throttle_init, []))))"
  by (simp add: cooling_def throttle_elapse.simps throttle_init_def new_host_def next_due_def
      throttle_call_def throttle_wrapped_def throttle_exec_def returns_def)

text \<open>
  Claim C3. The claim expects two executions for a burst of more than one call inside
  one interval: the first call's and a trailing one with the last call's arguments.
  The code executes the first call only, for every burst that stays inside the
  interval (whatever its duration), when the clock does not read 0 at the first call.
\<close>

theorem throttle_burst:
  assumes "t0 \<noteq> 0" and "cs \<noteq> []" and "list_all (\<lambda>c. fst c < t0 + limit) cs"
  shows "throttle_executions (returns :: 'a \<Rightarrow> 'e completion) limit ((t0, a0) # cs) = [(t0, a0)]"
proof -
  have "cooling t0 limit a0
          (fst (throttle_run (returns :: 'a \<Rightarrow> 'e completion) limit ((t0, a0) # cs) (throttle_init, [])))"
    using cooling_run [OF cooling_first assms(1,3)] by simp
  then show ?thesis
    by (simp add: throttle_executions_def cooling_def)
qed

theorem throttle_burst_witness:
  "(1000 :: int) \<noteq> 0 \<and> [(1030 :: int, ''b''), (1090, ''c'')] \<noteq> [] \<and>
   list_all (\<lambda>c. fst c < 1000 + 100) [(1030 :: int, ''b''), (1090, ''c'')] \<and>
   throttle_executions (returns :: string \<Rightarrow> unit completion) 100
       [(1000, ''a''), (1030, ''b''), (1090, ''c'')] = [(1000, ''a'')]"
  using throttle_burst [where ?'a = string and ?'e = unit and ?t0.0 = 1000 and limit = 100 and
      ?a0.0 = "''a''" and cs = "[(1030, ''b''), (1090, ''c'')]"]
  by simp




text \<open>
  A run with every call in a task of its own is one of the runs in tasks; and the
  burst inside one interval executes its first call only however its calls are grouped
  in tasks.
\<close>

lemma throttle_run_tasks:
  "throttle_run func limit cs w = throttle_tasks func limit (map (\<lambda>c. [c]) cs) w"
  by (induction func limit cs w rule: throttle_run.induct) simp_all

lemma cooling_calls:
  "cooling t0 limit a0 (fst w) \<Longrightarrow> t0 \<noteq> 0 \<Longrightarrow> list_all (\<lambda>c. fst c < t0 + limit) cs \<Longrightarrow>
   cooling t0 limit a0 (fst (throttle_calls func limit cs w))"
proof (induction cs arbitrary: w)
  case Nil
  then show ?case by simp
next
  case (Cons c cs)
  obtain t a where c: "c = (t, a)" by (cases c)
  from Cons.prems c have t: "t < t0 + limit" by simp
  have "cooling t0 limit a0 (fst (throttle_call func limit t a w))"
    using Cons.prems(1,2) t by (rule cooling_call)
  then show ?case
    using Cons.IH [of "throttle_call func limit t a w"] Cons.prems c by simp
qed

lemma cooling_tasks:
  "cooling t0 limit a0 (fst w) \<Longrightarrow> t0 \<noteq> 0 \<Longrightarrow>
   list_all (\<lambda>c. fst c < t0 + limit) (concat tasks) \<Longrightarrow>
   cooling t0 limit a0 (fst (throttle_tasks func limit tasks w))"
proof (induction func limit tasks w rule: throttle_tasks.induct)
  case (1 func limit w)
  then show ?case by (simp add: cooling_elapse)
next
  case (2 func limit tasks w)
  then show ?case by simp
next
  case (3 func limit t args cs tasks w)
  have "cooling t0 limit a0 (fst (throttle_elapse func limit (Some t) w))"
    using "3.prems"(1) by (rule cooling_elapse)
  then have "cooling t0 limit a0
     (fst (throttle_calls func limit ((t, args) # cs) (throttle_elapse func limit (Some t) w)))"
    using "3.prems"(2,3) by (intro cooling_calls) simp_all
  then show ?case
    using "3.IH" "3.prems"(2,3) by simp
qed

lemma burst_in_tasks:
  assumes "t0 \<noteq> 0" and "list_all (\<lambda>c. fst c < t0 + limit) (cs @ concat tasks)"
  shows "t_ran (fst (throttle_tasks (returns :: 'a \<Rightarrow> 'e completion) limit
                       (((t0, a0) # cs) # tasks) (throttle_init, []))) = [(t0, a0)]"
proof -
  let ?w = "throttle_call (returns :: 'a \<Rightarrow> 'e completion) limit t0 a0
              (throttle_elapse returns limit (Some t0) (throttle_init, []))"
  have "cooling t0 limit a0 (fst ?w)"
    by (rule cooling_first)
  then have "cooling t0 limit a0 (fst (throttle_calls returns limit cs ?w))"
    using assms by (intro cooling_calls) simp_all
  then have "cooling t0 limit a0
               (fst (throttle_tasks returns limit tasks (throttle_calls returns limit cs ?w)))"
    using assms by (intro cooling_tasks) simp_all
  then show ?thesis
    by (simp add: cooling_def)
qed

text \<open>
  Claim C8. The first call is told from the later ones by the truth value of
  \<^verbatim>\<open>lastRan\<close>: with 0 recorded, a call takes the branch of the first call and
  executes at once. So when the clock reads 0 at an execution, the next call executes
  immediately too, however soon it comes: two executions inside one interval.
\<close>

theorem throttle_zero_clock:
  "(lastRan s = Some 0 \<longrightarrow>
      throttle_wrapped func limit now args s = throttle_exec func now now args s) \<and>
   lastRan (snd (throttle_wrapped (returns :: 'a \<Rightarrow> 'e completion) limit 0 a throttle_init))
     = Some 0 \<and>
   throttle_executions (returns :: 'a \<Rightarrow> 'e completion) limit [(0, a), (t, b)]
     = [(0, a), (t, b)]"
  by (simp add: throttle_unfold)

theorem throttle_zero_clock_witness:
  "lastRan (snd (throttle_wrapped (returns :: string \<Rightarrow> unit completion) 100 0 ''a''
                   throttle_init)) = Some 0 \<and>
   throttle_wrapped (returns :: string \<Rightarrow> unit completion) 100 30 ''b''
       (snd (throttle_wrapped (returns :: string \<Rightarrow> unit completion) 100 0 ''a''
               throttle_init)) =
     throttle_exec (returns :: string \<Rightarrow> unit completion) 30 30 ''b''
       (snd (throttle_wrapped (returns :: string \<Rightarrow> unit completion) 100 0 ''a''
               throttle_init)) \<and>
   throttle_executions (returns :: string \<Rightarrow> unit completion) 100 [(0, ''a''), (30, ''b'')]
     = [(0, ''a''), (30, ''b'')]"
proof -
  let ?f = "returns :: string \<Rightarrow> unit completion"
  let ?s = "snd (throttle_wrapped ?f 100 0 ''a'' throttle_init)"
  have h: "lastRan ?s = Some 0"
    by (simp add: throttle_wrapped_def throttle_init_def throttle_exec_def returns_def)
  from h throttle_zero_clock [where ?'a = string and ?'e = unit and limit = 100 and
      a = "''a''" and b = "''b''" and t = 30 and now = 30 and args = "''b''" and
      func = ?f and s = ?s]
  show ?thesis
    by blast
qed


section \<open>Properties of debounce\<close>

lemma to_int32_small: "0 \<le> n \<Longrightarrow> n \<le> 2147483647 \<Longrightarrow> to_int32 n = n"
  by (simp add: to_int32_def)

lemma armed_wait:
  assumes "armed delay t a (fst w)" and "t' - t < delay"
  shows "debounce_elapse func (Some t') w = w"
proof -
  have "\<forall>tm \<in> set (pending (d_host (fst w))). t' < due tm"
    using assms by (auto simp: armed_def)
  then have "next_due (Some t') (pending (d_host (fst w))) = None"
    by (rule next_due_None)
  then show ?thesis
    by (simp add: debounce_elapse.simps)
qed

lemma armed_call:
  assumes "armed delay t a (fst w)" and "0 \<le> delay" and "delay \<le> 2147483647"
  shows "armed delay t' a' (fst (debounce_call func delay t' a' w))"
  using assms
  by (auto simp: armed_def debounce_call_def debounce_wrapped_def setTimeout_def clearTimeout_def
      to_int32_small)

lemma armed_first:
  assumes "0 \<le> delay" and "delay \<le> 2147483647"
  shows "armed delay t a
           (fst (debounce_call func delay t a
                   (debounce_elapse func (Some t) (debounce_init, []))))"
  using assms
  by (simp add: armed_def debounce_call_def debounce_wrapped_def setTimeout_def clearTimeout_def
      debounce_elapse.simps debounce_init_def new_host_def next_due_def to_int32_small)

lemma armed_flush:
  assumes "armed delay t a (fst w)"
  shows "d_ran (fst (debounce_elapse func None w)) = [(t + delay, a)]"
proof -
  from assms obtain tm where tm: "pending (d_host (fst w)) = [tm]" "due tm = t + delay"
    "task tm = a" and ran: "d_ran (fst w) = []"
    by (auto simp: armed_def)
  have nd: "next_due None (pending (d_host (fst w))) = Some tm"
    by (simp add: tm next_due_def)
  have "pending (d_host (fst (debounce_fire func tm w))) = []"
    by (simp add: debounce_fire_host dequeue_def tm)
  then have stop: "next_due None (pending (d_host (fst (debounce_fire func tm w)))) = None"
    by (simp add: next_due_def)
  have "debounce_elapse func None w = debounce_fire func tm w"
    by (simp add: debounce_elapse.simps [of func None w] nd
        debounce_elapse.simps [of func None "debounce_fire func tm w"] stop)
  then show ?thesis
    by (simp add: debounce_fire_def debounce_timer_def tm ran)
qed

lemma armed_run:
  "armed delay t a (fst w) \<Longrightarrow> 0 \<le> delay \<Longrightarrow> delay \<le> 2147483647 \<Longrightarrow>
   close_calls delay ((t, a) # cs) \<Longrightarrow>
   d_ran (fst (debounce_run func delay cs w)) =
     [(fst (last ((t, a) # cs)) + delay, snd (last ((t, a) # cs)))]"
proof (induction cs arbitrary: t a w)
  case Nil
  then show ?case by (simp add: armed_flush)
next
  case (Cons c cs)
  obtain t' a' where c: "c = (t', a')" by (cases c)
  from Cons.prems(4) c have near: "t' - t < delay" and rest: "close_calls delay ((t', a') # cs)"
    by simp_all
  have "debounce_elapse func (Some t') w = w"
    using Cons.prems(1) near by (rule armed_wait)
  moreover have "armed delay t' a' (fst (debounce_call func delay t' a' w))"
    using Cons.prems(1,2,3) by (rule armed_call)
  ultimately show ?case
    using Cons.IH [of t' a' "debounce_call func delay t' a' w"] Cons.prems(2,3) rest c by simp
qed

text \<open>
  Claim C4. The claim holds for the delays the host can keep, \<open>0 \<le> delay \<le> 2147483647\<close>:
  for one or more calls to a debounced function of which each comes less than
  \<open>delay\<close> after the one before, the callback executes exactly once, \<open>delay\<close>
  after the last call and with the arguments of the last call.
\<close>

theorem debounce_once:
  assumes "cs \<noteq> []" and "close_calls delay cs" and "0 \<le> delay" and "delay \<le> 2147483647"
  shows "debounce_executions func delay cs = [(fst (last cs) + delay, snd (last cs))]"
proof -
  from assms(1) obtain t a cs' where cs: "cs = (t, a) # cs'"
    by (cases cs) auto
  have "d_ran (fst (debounce_run func delay cs'
           (debounce_call func delay t a (debounce_elapse func (Some t) (debounce_init, []))))) =
        [(fst (last ((t, a) # cs')) + delay, snd (last ((t, a) # cs')))]"
    using armed_first [OF assms(3,4)] assms(3,4) assms(2) unfolding cs by (rule armed_run)
  then show ?thesis
    by (simp add: debounce_executions_def cs)
qed

theorem debounce_once_witness:
  "[(0 :: int, ''a''), (10, ''b''), (20, ''c'')] \<noteq> [] \<and>
   close_calls 50 [(0 :: int, ''a''), (10, ''b''), (20, ''c'')] \<and> (0 :: int) \<le> 50 \<and>
   (50 :: int) \<le> 2147483647 \<and>
   debounce_executions (returns :: string \<Rightarrow> unit completion) 50
       [(0, ''a''), (10, ''b''), (20, ''c'')] = [(70, ''c'')]"
  using debounce_once [where func = "returns :: string \<Rightarrow> unit completion" and delay = 50 and
      cs = "[(0, ''a''), (10, ''b''), (20, ''c'')]"]
  by simp

text \<open>
  As the claim is written, for every delay, it fails: the delay 3000000000 wraps to a
  negative one, every timer is due at once, and the callback executes after each of
  the three calls at 0, 10 and 20, although they are less than the delay apart.
\<close>

theorem debounce_long_delay_counterexample:
  "close_calls 3000000000 [(0 :: int, ''a''), (10, ''b''), (20, ''c'')] \<and>
   debounce_executions (returns :: string \<Rightarrow> unit completion) 3000000000
       [(0, ''a''), (10, ''b''), (20, ''c'')] = [(0, ''a''), (10, ''b''), (20, ''c'')] \<and>
   debounce_executions (returns :: string \<Rightarrow> unit completion) 3000000000
       [(0, ''a''), (10, ''b''), (20, ''c'')] \<noteq> [(3000000020, ''c'')]"
  by (simp add: debounce_executions_def debounce_elapse.simps debounce_init_def new_host_def
      next_due_def debounce_call_def debounce_wrapped_def setTimeout_def clearTimeout_def
      debounce_fire_def debounce_timer_def dequeue_def scheduler_report_def caller_report_def
      returns_def to_int32_def)

text \<open>
  Two calls in one task with the delay 0: no timer runs between them, the second call
  cancels the timer of the first, and only the second executes.
\<close>

lemma debounce_same_task:
  "d_ran (fst (debounce_tasks (returns :: string \<Rightarrow> unit completion) 0
                 [[(5, ''a''), (5, ''b'')]] (debounce_init, []))) = [(5, ''b'')]"
  by (simp add: debounce_elapse.simps debounce_init_def new_host_def
      next_due_def debounce_call_def debounce_wrapped_def setTimeout_def clearTimeout_def
      debounce_fire_def debounce_timer_def dequeue_def scheduler_report_def caller_report_def
      returns_def to_int32_def)

text \<open>
  A run with every call in a task of its own is one of the runs in tasks; and calls
  less than the delay apart execute once however they are grouped in tasks.
\<close>

lemma debounce_run_tasks:
  "debounce_run func delay cs w = debounce_tasks func delay (map (\<lambda>c. [c]) cs) w"
  by (induction func delay cs w rule: debounce_run.induct) simp_all

lemma close_calls_append:
  "close_calls delay ((t, a) # cs @ rest) \<Longrightarrow>
   close_calls delay ((t, a) # cs) \<and> close_calls delay (last ((t, a) # cs) # rest)"
proof (induction cs arbitrary: t a)
  case Nil
  then show ?case by simp
next
  case (Cons c cs)
  obtain t' a' where c: "c = (t', a')" by (cases c)
  from Cons.prems c have "t' - t < delay" and "close_calls delay ((t', a') # cs @ rest)"
    by simp_all
  with Cons.IH [of t' a'] c show ?case by simp
qed

lemma armed_calls:
  "armed delay t a (fst w) \<Longrightarrow> 0 \<le> delay \<Longrightarrow> delay \<le> 2147483647 \<Longrightarrow>
   armed delay (fst (last ((t, a) # cs))) (snd (last ((t, a) # cs)))
     (fst (debounce_calls func delay cs w))"
proof (induction cs arbitrary: t a w)
  case Nil
  then show ?case by simp
next
  case (Cons c cs)
  obtain t' a' where c: "c = (t', a')" by (cases c)
  have "armed delay t' a' (fst (debounce_call func delay t' a' w))"
    using Cons.prems by (rule armed_call)
  from Cons.IH [OF this Cons.prems(2,3)] c show ?case by simp
qed

lemma last_of_last: "last (last (x # xs) # ys) = last (x # xs @ ys)"
  by (cases "ys = []") simp_all

lemma armed_tasks:
  "armed delay t a (fst w) \<Longrightarrow> 0 \<le> delay \<Longrightarrow> delay \<le> 2147483647 \<Longrightarrow>
   close_calls delay ((t, a) # concat tasks) \<Longrightarrow>
   d_ran (fst (debounce_tasks func delay tasks w)) =
     [(fst (last ((t, a) # concat tasks)) + delay, snd (last ((t, a) # concat tasks)))]"
proof (induction func delay tasks w arbitrary: t a rule: debounce_tasks.induct)
  case (1 func delay w)
  then show ?case by (simp add: armed_flush)
next
  case (2 func delay tasks w)
  then show ?case by simp
next
  case (3 func delay t' args cs tasks w)
  let ?task = "(t', args) # cs"
  obtain lt la where l: "last ?task = (lt, la)" by (cases "last ?task")
  from "3.prems"(4) have near: "t' - t < delay"
    and cc: "close_calls delay ((t', args) # cs @ concat tasks)"
    by simp_all
  from close_calls_append [OF cc]
  have rest: "close_calls delay ((lt, la) # concat tasks)" by (simp only: l)
  have wait: "debounce_elapse func (Some t') w = w"
    using "3.prems"(1) near by (rule armed_wait)
  have "armed delay t' args (fst (debounce_call func delay t' args w))"
    using "3.prems"(1,2,3) by (rule armed_call)
  then have "armed delay (fst (last ?task)) (snd (last ?task))
               (fst (debounce_calls func delay cs (debounce_call func delay t' args w)))"
    using "3.prems"(2,3) by (rule armed_calls)
  then have "armed delay lt la
               (fst (debounce_calls func delay cs (debounce_call func delay t' args w)))"
    by (simp only: l fst_conv snd_conv)
  then have "armed delay lt la
               (fst (debounce_calls func delay ?task (debounce_elapse func (Some t') w)))"
    by (simp add: wait)
  from "3.IH" [OF this "3.prems"(2,3) rest]
  have "d_ran (fst (debounce_tasks func delay (?task # tasks) w)) =
     [(fst (last ((lt, la) # concat tasks)) + delay, snd (last ((lt, la) # concat tasks)))]"
    by simp
  moreover have "last ((lt, la) # concat tasks) = last ((t, a) # concat (?task # tasks))"
  proof -
    have "last ((t, a) # concat (?task # tasks)) = last (concat (?task # tasks))"
      by (rule last_ConsR) simp
    also have "\<dots> = last ((t', args) # cs @ concat tasks)"
      by simp
    also have "\<dots> = last (last ?task # concat tasks)"
      by (rule last_of_last [symmetric])
    finally have "last ((t, a) # concat (?task # tasks)) = last (last ?task # concat tasks)" .
    then show ?thesis
      by (simp only: l)
  qed
  ultimately show ?case
    by (simp only:)
qed

lemma once_in_tasks:
  assumes "close_calls delay ((t, a) # cs @ concat tasks)" and "0 \<le> delay"
    and "delay \<le> 2147483647"
  shows "d_ran (fst (debounce_tasks func delay (((t, a) # cs) # tasks) (debounce_init, []))) =
     [(fst (last ((t, a) # cs @ concat tasks)) + delay, snd (last ((t, a) # cs @ concat tasks)))]"
proof -
  let ?w = "debounce_call func delay t a (debounce_elapse func (Some t) (debounce_init, []))"
  let ?task = "(t, a) # cs"
  obtain lt la where l: "last ?task = (lt, la)" by (cases "last ?task")
  have "armed delay t a (fst ?w)"
    using assms(2,3) by (rule armed_first)
  then have "armed delay (fst (last ?task)) (snd (last ?task))
               (fst (debounce_calls func delay cs ?w))"
    using assms(2,3) by (rule armed_calls)
  then have "armed delay lt la (fst (debounce_calls func delay cs ?w))"
    by (simp only: l fst_conv snd_conv)
  moreover from close_calls_append [OF assms(1)]
  have "close_calls delay ((lt, la) # concat tasks)" by (simp only: l)
  ultimately have "d_ran (fst (debounce_tasks func delay tasks (debounce_calls func delay cs ?w))) =
     [(fst (last ((lt, la) # concat tasks)) + delay, snd (last ((lt, la) # concat tasks)))]"
    using assms(2,3) by (intro armed_tasks)
  moreover have "last ((lt, la) # concat tasks) = last ((t, a) # cs @ concat tasks)"
    using last_of_last [of "(t, a)" cs "concat tasks"] by (simp only: l)
  ultimately show ?thesis
    by (simp del: last.simps)
qed

section \<open>Timers and exceptions of both\<close>

lemma owned_new: "owned None new_host"
  by (simp add: owned_def new_host_def)

lemma owned_clear: "owned i h \<Longrightarrow> pending (clearTimeout i h) = []"
  by (cases i) (auto simp: owned_def clearTimeout_def filter_empty_conv)

lemma owned_clear_next: "next_handle (clearTimeout i h) = next_handle h"
  by (cases i) (auto simp: clearTimeout_def)

lemma owned_set:
  assumes "owned i h" and "setTimeout c d clk (clearTimeout i h) = (j, h')"
  shows "owned (Some j) h'"
  using assms owned_clear [OF assms(1)]
  by (auto simp: owned_def setTimeout_def owned_clear_next)

lemma owned_dequeue: "owned i h \<Longrightarrow> owned i (dequeue tm h)"
  by (auto simp: owned_def dequeue_def intro: le_trans [OF length_filter_le])

lemma debounce_reach_owned: "debounce_reach func delay s \<Longrightarrow> owned (timeout s) (d_host s)"
proof (induction rule: debounce_reach.induct)
  case d_init
  show ?case by (simp add: debounce_init_def owned_new)
next
  case (d_call s now args)
  obtain j h' where jh: "setTimeout args delay now (clearTimeout (timeout s) (d_host s)) = (j, h')"
    by (cases "setTimeout args delay now (clearTimeout (timeout s) (d_host s))")
  from owned_set [OF d_call.IH jh] show ?case
    by (simp add: debounce_wrapped_def jh)
next
  case (d_fire s tm clk)
  from owned_dequeue [OF d_fire.IH] show ?case
    by (simp add: debounce_timer_def)
qed

lemma throttle_exec_owned:
  "owned (lastFunc s) (t_host s) \<Longrightarrow>
   owned (lastFunc (snd (throttle_exec func clk now args s)))
         (t_host (snd (throttle_exec func clk now args s)))"
  by (simp add: throttle_exec_def split: completion.splits)

lemma throttle_reach_owned: "throttle_reach func limit s \<Longrightarrow> owned (lastFunc s) (t_host s)"
proof (induction rule: throttle_reach.induct)
  case t_init
  show ?case by (simp add: throttle_init_def owned_new)
next
  case (t_call s now args)
  show ?case
  proof (cases "lastRan s")
    case None
    then show ?thesis
      using throttle_exec_owned [OF t_call.IH] by (simp add: throttle_wrapped_def)
  next
    case (Some r)
    show ?thesis
    proof (cases "r = 0")
      case True
      with Some show ?thesis
        using throttle_exec_owned [OF t_call.IH] by (simp add: throttle_wrapped_def)
    next
      case False
      obtain j h' where jh:
        "setTimeout (now, args) (limit - (now - r)) now (clearTimeout (lastFunc s) (t_host s)) = (j, h')"
        by (cases "setTimeout (now, args) (limit - (now - r)) now (clearTimeout (lastFunc s) (t_host s))")
      from owned_set [OF t_call.IH jh] Some False show ?thesis
        by (simp add: throttle_wrapped_def jh)
    qed
  qed
next
  case (t_fire s tm clk)
  have "owned (lastFunc (s\<lparr>t_host := dequeue tm (t_host s)\<rparr>)) (t_host (s\<lparr>t_host := dequeue tm (t_host s)\<rparr>))"
    using owned_dequeue [OF t_fire.IH] by simp
  then show ?case
    by (auto simp: throttle_timer_def throttle_exec_def split: prod.splits option.splits completion.splits)
qed

text \<open>
  Claim C6. In every state a debounced or throttled function can reach, whatever the
  calls and the clock, at most one timer is pending for it; a pending timer is the one
  whose handle the instance holds, so that the \<^verbatim>\<open>clearTimeout\<close> before each
  \<^verbatim>\<open>setTimeout\<close> leaves no timer pending.
\<close>

theorem one_timer:
  "(debounce_reach func delay s \<longrightarrow>
      length (pending (d_host s)) \<le> 1 \<and>
      (\<forall>tm \<in> set (pending (d_host s)). timeout s = Some (handle tm)) \<and>
      pending (clearTimeout (timeout s) (d_host s)) = []) \<and>
   (throttle_reach func' limit s' \<longrightarrow>
      length (pending (t_host s')) \<le> 1 \<and>
      (\<forall>tm \<in> set (pending (t_host s')). lastFunc s' = Some (handle tm)) \<and>
      pending (clearTimeout (lastFunc s') (t_host s')) = [])"
proof (intro conjI impI)
  assume "debounce_reach func delay s"
  then have o: "owned (timeout s) (d_host s)" by (rule debounce_reach_owned)
  show "length (pending (d_host s)) \<le> 1" using o by (simp add: owned_def)
  show "\<forall>tm \<in> set (pending (d_host s)). timeout s = Some (handle tm)"
    using o by (simp add: owned_def)
  show "pending (clearTimeout (timeout s) (d_host s)) = []" using o by (rule owned_clear)
next
  assume "throttle_reach func' limit s'"
  then have o: "owned (lastFunc s') (t_host s')" by (rule throttle_reach_owned)
  show "length (pending (t_host s')) \<le> 1" using o by (simp add: owned_def)
  show "\<forall>tm \<in> set (pending (t_host s')). lastFunc s' = Some (handle tm)"
    using o by (simp add: owned_def)
  show "pending (clearTimeout (lastFunc s') (t_host s')) = []" using o by (rule owned_clear)
qed

theorem one_timer_witness:
  "debounce_reach (returns :: string \<Rightarrow> unit completion) 50
     (snd (debounce_wrapped (returns :: string \<Rightarrow> unit completion) 50 10 ''b''
        (snd (debounce_wrapped (returns :: string \<Rightarrow> unit completion) 50 0 ''a''
           debounce_init)))) \<and>
   pending (d_host
     (snd (debounce_wrapped (returns :: string \<Rightarrow> unit completion) 50 10 ''b''
        (snd (debounce_wrapped (returns :: string \<Rightarrow> unit completion) 50 0 ''a''
           debounce_init))))) = [\<lparr>handle = 2, due = 60, task = ''b''\<rparr>] \<and>
   timeout
     (snd (debounce_wrapped (returns :: string \<Rightarrow> unit completion) 50 10 ''b''
        (snd (debounce_wrapped (returns :: string \<Rightarrow> unit completion) 50 0 ''a''
           debounce_init)))) = Some 2 \<and>
   throttle_reach (returns :: string \<Rightarrow> unit completion) 100
     (snd (throttle_wrapped (returns :: string \<Rightarrow> unit completion) 100 1060 ''c''
        (snd (throttle_wrapped (returns :: string \<Rightarrow> unit completion) 100 1030 ''b''
           (snd (throttle_wrapped (returns :: string \<Rightarrow> unit completion) 100 1000 ''a''
              throttle_init)))))) \<and>
   pending (t_host
     (snd (throttle_wrapped (returns :: string \<Rightarrow> unit completion) 100 1060 ''c''
        (snd (throttle_wrapped (returns :: string \<Rightarrow> unit completion) 100 1030 ''b''
           (snd (throttle_wrapped (returns :: string \<Rightarrow> unit completion) 100 1000 ''a''
              throttle_init))))))) = [\<lparr>handle = 2, due = 1100, task = (1060, ''c'')\<rparr>] \<and>
   lastFunc
     (snd (throttle_wrapped (returns :: string \<Rightarrow> unit completion) 100 1060 ''c''
        (snd (throttle_wrapped (returns :: string \<Rightarrow> unit completion) 100 1030 ''b''
           (snd (throttle_wrapped (returns :: string \<Rightarrow> unit completion) 100 1000 ''a''
              throttle_init)))))) = Some 2 \<and>
   pending (clearTimeout (Some 2)
     (d_host
       (snd (debounce_wrapped (returns :: string \<Rightarrow> unit completion) 50 10 ''b''
          (snd (debounce_wrapped (returns :: string \<Rightarrow> unit completion) 50 0 ''a''
             debounce_init)))))) = [] \<and>
   pending (clearTimeout (Some 2)
     (t_host
       (snd (throttle_wrapped (returns :: string \<Rightarrow> unit completion) 100 1060 ''c''
          (snd (throttle_wrapped (returns :: string \<Rightarrow> unit completion) 100 1030 ''b''
             (snd (throttle_wrapped (returns :: string \<Rightarrow> unit completion) 100 1000 ''a''
                throttle_init)))))))) = []"
proof -
  let ?f = "returns :: string \<Rightarrow> unit completion"
  let ?d = "snd (debounce_wrapped ?f 50 10 ''b'' (snd (debounce_wrapped ?f 50 0 ''a'' debounce_init)))"
  let ?t = "snd (throttle_wrapped ?f 100 1060 ''c''
              (snd (throttle_wrapped ?f 100 1030 ''b''
                 (snd (throttle_wrapped ?f 100 1000 ''a'' throttle_init)))))"
  have d: "debounce_reach ?f 50 ?d"
    by (intro d_call d_init)
  have t: "throttle_reach ?f 100 ?t"
    by (intro t_call t_init)
  have dp: "pending (d_host ?d) = [\<lparr>handle = 2, due = 60, task = ''b''\<rparr>]"
    and dh: "timeout ?d = Some 2"
    by (simp_all add: debounce_wrapped_def debounce_init_def new_host_def setTimeout_def
        clearTimeout_def to_int32_def)
  have tp: "pending (t_host ?t) = [\<lparr>handle = 2, due = 1100, task = (1060, ''c'')\<rparr>]"
    and th: "lastFunc ?t = Some 2"
    by (simp_all add: throttle_wrapped_def throttle_exec_def throttle_init_def new_host_def
        returns_def setTimeout_def clearTimeout_def to_int32_def)
  from d t one_timer [of ?f 50 ?d ?f 100 ?t]
  have "pending (clearTimeout (timeout ?d) (d_host ?d)) = []"
    and "pending (clearTimeout (lastFunc ?t) (t_host ?t)) = []"
    by blast+
  then have "pending (clearTimeout (Some 2) (d_host ?d)) = []"
    and "pending (clearTimeout (Some 2) (t_host ?t)) = []"
    by (simp_all only: dh th)
  with d t dp dh tp th show ?thesis
    by blast
qed

text \<open>
  The execution inside the first call is not a scheduled one: there the callback runs
  in the caller's own task, and what it throws goes to the caller.
\<close>

lemma first_call_throws_to_caller:
  "fst (throttle_wrapped func limit now args throttle_init) = func args"
  by (simp add: throttle_wrapped_def throttle_init_def throttle_exec_def
      split: completion.splits)

text \<open>
  Claim C7. Neither wrapper catches what the callback throws. A scheduled execution
  runs in the callback of a timer, which completes as the callback does: the exception
  goes to the scheduler that ran the timer. The call that scheduled it has returned
  normally before; a debounced function never throws to its caller at all.
\<close>

theorem callback_exception_uncaught:
  "fst (debounce_wrapped func delay now args s) = Normal \<and>
   fst (debounce_timer func args clk s) = func args \<and>
   snd (debounce_fire func tm w) = snd w @ scheduler_report (func (task tm)) \<and>
   snd (debounce_run (\<lambda>x. Throw e) delay [(t, a)] (debounce_init, [])) = [To_scheduler e] \<and>
   (lastRan s' = Some r \<and> r \<noteq> 0 \<longrightarrow>
      fst (throttle_wrapped func limit now args s') = Normal) \<and>
   (lastRan s' = Some r \<and> limit \<le> now - r \<longrightarrow>
      fst (throttle_timer func limit (now, args) clk s') = func args) \<and>
   snd (throttle_run (\<lambda>x. if x then Throw e else Normal) 100 [(1000, False), (1120, True)]
          (throttle_init, [])) = [To_scheduler e]"
proof (intro conjI impI)
  show "fst (debounce_wrapped func delay now args s) = Normal"
    by (simp add: debounce_wrapped_def setTimeout_def)
  show "fst (debounce_timer func args clk s) = func args"
    by (simp add: debounce_timer_def)
  show "snd (debounce_fire func tm w) = snd w @ scheduler_report (func (task tm))"
    by (simp add: debounce_fire_def debounce_timer_def)
  show "snd (debounce_run (\<lambda>x. Throw e) delay [(t, a)] (debounce_init, [])) = [To_scheduler e]"
    by (simp add: debounce_elapse.simps debounce_init_def new_host_def next_due_def
        debounce_call_def debounce_wrapped_def setTimeout_def clearTimeout_def debounce_fire_def
        debounce_timer_def dequeue_def scheduler_report_def caller_report_def to_int32_def)
  show "snd (throttle_run (\<lambda>x. if x then Throw e else Normal) 100 [(1000, False), (1120, True)]
          (throttle_init, [])) = [To_scheduler e]"
    by (simp add: throttle_unfold)
next
  assume "lastRan s' = Some r \<and> r \<noteq> 0"
  then show "fst (throttle_wrapped func limit now args s') = Normal"
    by (simp add: throttle_wrapped_def setTimeout_def)
next
  assume "lastRan s' = Some r \<and> limit \<le> now - r"
  then show "fst (throttle_timer func limit (now, args) clk s') = func args"
    by (simp add: throttle_timer_def throttle_exec_def split: completion.splits)
qed

theorem callback_exception_uncaught_witness:
  "lastRan (\<lparr>lastFunc = None, lastRan = Some 1000, t_host = new_host, t_ran = [(1000, False)]\<rparr>)
     = Some 1000 \<and> (1000 :: int) \<noteq> 0 \<and> (100 :: int) \<le> 1120 - 1000 \<and>
   fst (throttle_wrapped (\<lambda>x. if x then Throw ''boom'' else Normal) 100 1120 True
          \<lparr>lastFunc = None, lastRan = Some 1000, t_host = new_host, t_ran = [(1000, False)]\<rparr>)
     = Normal \<and>
   fst (throttle_timer (\<lambda>x. if x then Throw ''boom'' else Normal) 100 (1120, True) 1120
          \<lparr>lastFunc = None, lastRan = Some 1000, t_host = new_host, t_ran = [(1000, False)]\<rparr>)
     = Throw ''boom''"
proof -
  let ?f = "\<lambda>x. if x then Throw ''boom'' else Normal"
  let ?s = "\<lparr>lastFunc = None, lastRan = Some 1000, t_host = new_host, t_ran = [(1000, False)]\<rparr>"
  have h: "lastRan ?s = Some 1000" "(1000 :: int) \<noteq> 0" "(100 :: int) \<le> 1120 - 1000"
    by simp_all
  have f: "?f True = Throw ''boom''"
    by simp
  from h callback_exception_uncaught [where func = ?f and limit = 100 and now = 1120 and
      args = True and r = 1000 and clk = 1120 and s' = ?s and delay = 0 and
      s = debounce_init and tm = "\<lparr>handle = 1, due = 0, task = True\<rparr>" and
      w = "(debounce_init, [])" and e = "''boom''" and t = 0 and a = True]
  have "fst (throttle_wrapped ?f 100 1120 True ?s) = Normal"
    and "fst (throttle_timer ?f 100 (1120, True) 1120 ?s) = ?f True"
    by blast+
  with h f show ?thesis
    by (simp only: simp_thms)
qed


section \<open>Properties of isEmpty and mergeObjects\<close>

text \<open>
  Claim C10. \<^verbatim>\<open>isEmpty\<close> returns true exactly for the values that have no own
  enumerable key, among them the empty object and the empty array; it returns false
  for the other values that have keys; for \<^verbatim>\<open>null\<close> and \<^verbatim>\<open>undefined\<close> it throws a
  TypeError and returns nothing.
\<close>

theorem isEmpty_keys:
  "(isEmpty h obj = Inr True) =
     (obj \<noteq> JUndefined \<and> obj \<noteq> JNull \<and> map fst (own_props h obj) = []) \<and>
   (isEmpty h obj = Inr False) =
     (obj \<noteq> JUndefined \<and> obj \<noteq> JNull \<and> map fst (own_props h obj) \<noteq> []) \<and>
   isEmpty h JNull = Inl TypeError \<and>
   isEmpty h JUndefined = Inl TypeError \<and>
   isEmpty [\<lparr>kind = Plain, props = []\<rparr>] (JRef 0) = Inr True \<and>
   isEmpty [\<lparr>kind = Array, props = []\<rparr>] (JRef 0) = Inr True \<and>
   isEmpty [\<lparr>kind = Plain, props = [(''key'', JStr ''value'')]\<rparr>] (JRef 0) = Inr False"
  by (cases obj) (auto simp: isEmpty_def Object_keys_def own_props_def)




































lemma for_in_mono:
  assumes "\<And>k h y. body k h = Inr y \<Longrightarrow> body' k h = Inr y"
  shows "for_in body ks h = Inr y \<Longrightarrow> for_in body' ks h = Inr y"
proof (induction ks arbitrary: h)
  case Nil
  then show ?case by simp
next
  case (Cons k ks)
  from Cons.prems obtain h2 where step: "body k h = Inr h2" and rest: "for_in body ks h2 = Inr y"
    by (auto split: sum.splits)
  from step have "body' k h = Inr h2" by (rule assms)
  moreover from rest have "for_in body' ks h2 = Inr y" by (rule Cons.IH)
  ultimately show ?case by simp
qed

lemma merge_key_mono:
  assumes "\<And>tv v h x. rec tv v h = Inr x \<Longrightarrow> rec' tv v h = Inr x"
    and "merge_key rec target source key h = Inr y"
  shows "merge_key rec' target source key h = Inr y"
  using assms(2)
  by (auto simp: merge_key_def dest: assms(1) split: sum.splits if_splits bool.splits prod.splits)

lemma mergeObjects_Suc:
  "mergeObjects depth target source h = Inr x \<Longrightarrow> mergeObjects (Suc depth) target source h = Inr x"
proof (induction depth arbitrary: target source h x)
  case 0
  then show ?case by simp
next
  case (Suc depth)
  from Suc.prems obtain h1 where
    loop: "for_in (merge_key (mergeObjects depth) target source) (map fst (own_props h source)) h
             = Inr h1"
    and x: "x = spread target source h1"
    by (auto split: sum.splits)
  have "for_in (merge_key (mergeObjects (Suc depth)) target source)
          (map fst (own_props h source)) h = Inr h1"
    using _ loop
  proof (rule for_in_mono)
    fix k h y
    assume "merge_key (mergeObjects depth) target source k h = Inr y"
    with Suc.IH show "merge_key (mergeObjects (Suc depth)) target source k h = Inr y"
      by (rule merge_key_mono)
  qed
  with x show ?case by simp
qed

lemma mergeObjects_deeper:
  "mergeObjects depth target source h = Inr x \<Longrightarrow>
   mergeObjects (depth + n) target source h = Inr x"
proof (induction n)
  case 0
  then show ?case by simp
next
  case (Suc n)
  then have "mergeObjects (depth + n) target source h = Inr x" by simp
  then have "mergeObjects (Suc (depth + n)) target source h = Inr x" by (rule mergeObjects_Suc)
  then show ?case by (simp only: add_Suc_right)
qed
















lemma two_level_run:
  "mergeObjects (3 + n) (JRef 0) (JRef 3) two_level_heap =
     Inr (JRef 8,
          [\<lparr>kind = Plain, props = [(''a'', JRef 1)]\<rparr>,
           \<lparr>kind = Plain, props = [(''b'', JRef 2)]\<rparr>,
           \<lparr>kind = Plain, props = [(''x'', JNum 1)]\<rparr>,
           \<lparr>kind = Plain, props = [(''a'', JRef 4)]\<rparr>,
           \<lparr>kind = Plain, props = [(''b'', JRef 5)]\<rparr>,
           \<lparr>kind = Plain, props = [(''y'', JNum 2), (''x'', JNum 1)]\<rparr>,
           \<lparr>kind = Plain, props = [(''x'', JNum 1), (''y'', JNum 2)]\<rparr>,
           \<lparr>kind = Plain, props = [(''b'', JRef 5)]\<rparr>,
           \<lparr>kind = Plain, props = [(''a'', JRef 4)]\<rparr>])"
proof -
  have "mergeObjects 3 (JRef 0) (JRef 3) two_level_heap =
     Inr (JRef 8,
          [\<lparr>kind = Plain, props = [(''a'', JRef 1)]\<rparr>,
           \<lparr>kind = Plain, props = [(''b'', JRef 2)]\<rparr>,
           \<lparr>kind = Plain, props = [(''x'', JNum 1)]\<rparr>,
           \<lparr>kind = Plain, props = [(''a'', JRef 4)]\<rparr>,
           \<lparr>kind = Plain, props = [(''b'', JRef 5)]\<rparr>,
           \<lparr>kind = Plain, props = [(''y'', JNum 2), (''x'', JNum 1)]\<rparr>,
           \<lparr>kind = Plain, props = [(''x'', JNum 1), (''y'', JNum 2)]\<rparr>,
           \<lparr>kind = Plain, props = [(''b'', JRef 5)]\<rparr>,
           \<lparr>kind = Plain, props = [(''a'', JRef 4)]\<rparr>])"
    by code_simp
  then show ?thesis by (rule mergeObjects_deeper)
qed







end
